theory Spec2Isabelle
  imports Main "HOL-Library.Multiset"
begin

text \<open>
  A shallow embedding of \<open>src/lib/index.js\<close>, a policy plugin for a request server:
  policy files are registered by name under one of six apply points of the request
  lifecycle (\<open>loadPolicies\<close>, \<open>addPolicy\<close>, \<open>reset\<close>), a handler per apply point
  resolves the policies a route lists and runs them in order (\<open>aHandlers\<close>,
  \<open>runPolicies\<close>), and \<open>exports.parallel\<close> builds an aggregate of named policies whose
  apply point \<open>determineAggregateApplyPoint\<close> infers. Mutable module state (\<open>oData\<close>, the
  memoization cache), the server and the reply interface are passed and returned
  explicitly; a failed \<open>oHoek.assert\<close> is a value of type \<open>assertion\<close>.
\<close>

section \<open>JavaScript values and objects\<close>

text \<open>
  The values a property such as \<open>applyPoint\<close> can hold: \<open>undefined\<close>, \<open>null\<close>, a boolean,
  an (integer) number or a string. \<open>truthy\<close> is JavaScript's conversion to boolean, which
  \<open>!x\<close>, \<open>x || y\<close> and \<open>if (x)\<close> apply.
\<close>

datatype jsval = JUndefined | JNull | JBool bool | JNum int | JStr string

fun truthy :: "jsval \<Rightarrow> bool" where
  "truthy JUndefined = False"
| "truthy JNull = False"
| "truthy (JBool b) = b"
| "truthy (JNum n) = (n \<noteq> 0)"
| "truthy (JStr s) = (s \<noteq> [])"

text \<open>
  A plain object used as a dictionary is an association list in insertion order:
  \<open>o[k] = v\<close> replaces the value of an own key in place or appends a new key,
  \<open>Object.keys(o)\<close> lists the keys, \<open>o[k]\<close> reads an own key (\<open>None\<close> is
  \<open>undefined\<close>). Only membership among the keys and their number are read, so the place
  JavaScript gives to integer-like keys makes no difference. Properties inherited from
  \<open>Object.prototype\<close> are not modelled.
\<close>

type_synonym 'v obj = "(string \<times> 'v) list"

fun obj_set :: "'v obj \<Rightarrow> string \<Rightarrow> 'v \<Rightarrow> 'v obj" where
  "obj_set [] k v = [(k, v)]"
| "obj_set ((k', v') # kvs) k v =
     (if k' = k then (k, v) # kvs else (k', v') # obj_set kvs k v)"

definition obj_keys :: "'v obj \<Rightarrow> string list" where
  "obj_keys ob = map fst ob"

definition obj_get :: "'v obj \<Rightarrow> string \<Rightarrow> 'v option" where
  "obj_get ob k = map_of ob k"

section \<open>Apply points and policies\<close>

datatype stage =
  onRequest | onPreAuth | onPostAuth | onPreHandler | onPostHandler | onPreResponse

definition aApplicablePoints :: "stage list" where
  "aApplicablePoints =
     [onRequest, onPreAuth, onPostAuth, onPreHandler, onPostHandler, onPreResponse]"

fun stage_name :: "stage \<Rightarrow> string" where
  "stage_name onRequest = ''onRequest''"
| "stage_name onPreAuth = ''onPreAuth''"
| "stage_name onPostAuth = ''onPostAuth''"
| "stage_name onPreHandler = ''onPreHandler''"
| "stage_name onPostHandler = ''onPostHandler''"
| "stage_name onPreResponse = ''onPreResponse''"

text \<open>
  The entry of \<open>aApplicablePoints\<close> that a JavaScript value is equal to, if any:
  \<open>_.includes(aApplicablePoints, v)\<close> is \<open>js_stage v \<noteq> None\<close>.
\<close>

definition js_stage :: "jsval \<Rightarrow> stage option" where
  "js_stage v = find (\<lambda>p. v = JStr (stage_name p)) aApplicablePoints"

text \<open>
  A policy is a function object. Its body is either an opaque function \<open>'f\<close> or the
  closure \<open>aggregatePolicy\<close> that \<open>exports.parallel\<close> returns, which holds the policy names
  and the custom error handler (\<open>None\<close> for \<open>defaultErrorHandler\<close>). The properties
  \<open>applyPoint\<close> and \<open>runs\<close> are read by the registry and by the stage handlers.
\<close>

datatype ('f, 'h) body = Plain 'f | Aggregate "string list" "'h option"

record ('f, 'h) policy =
  applyPoint :: jsval
  runs :: "string list option"
  body :: "('f, 'h) body"

definition hasValidApplyPoint :: "('f, 'h) policy \<Rightarrow> bool" where
  "hasValidApplyPoint oPolicy \<longleftrightarrow>
     \<not> truthy (applyPoint oPolicy) \<or> js_stage (applyPoint oPolicy) \<noteq> None"

section \<open>The registry \<open>oData\<close>\<close>

text \<open>
  \<open>oData\<close> holds the names in registration order, the table of all policies by name,
  the set of apply points whose handler has been connected (\<open>setHandlers[p] = true\<close>),
  and one object of policies per apply point (\<open>oData[p]\<close>, here \<open>points d p\<close>).
\<close>

record ('f, 'h) oData =
  names :: "string list"
  rawPolicies :: "('f, 'h) policy obj"
  setHandlers :: "stage set"
  points :: "stage \<Rightarrow> ('f, 'h) policy obj"

text \<open>The state at module load, which \<open>reset\<close> restores.\<close>

definition empty_oData :: "('f, 'h) oData" where
  "empty_oData = \<lparr>names = [], rawPolicies = [], setHandlers = {}, points = (\<lambda>p. [])\<rparr>"

text \<open>
  The cache of \<open>_.memoize\<close> around \<open>determineAggregateApplyPoint\<close>, as the list of its
  entries. \<open>_.memoize\<close> is called without a resolver, so the key of an entry is the
  argument itself, the array of names, which the cache (the one that has the \<open>clear\<close>
  that \<open>reset\<close> calls) tells from every other array; the comment in the source speaks of
  the key \<open>'policy1,...,policyN'\<close> for \<open>['policy1', ..., 'policyN']\<close>. The model takes the
  key of an array as a parameter \<open>key\<close>: \<open>\<lambda>ns. ns\<close> is the array itself (an array being
  the list of its elements), \<open>join_names\<close> is the key of the comment.
\<close>

type_synonym 'k memo = "('k \<times> stage) list"

fun join_names :: "string list \<Rightarrow> string" where
  "join_names [] = []"
| "join_names [x] = x"
| "join_names (x # y # ys) = x @ '','' @ join_names (y # ys)"

text \<open>\<open>reset\<close> assigns a new empty \<open>oData\<close> and clears the cache.\<close>

definition reset :: "('f, 'h) oData \<times> 'k memo \<Rightarrow> ('f, 'h) oData \<times> 'k memo" where
  "reset s = (empty_oData, [])"

section \<open>Registration: \<open>loadPolicies\<close> and \<open>addPolicy\<close>\<close>

text \<open>
  The part of the server that registration touches: the extension points connected with
  \<open>server.ext\<close>, in call order, and the entries written with \<open>server.log\<close>.
\<close>

datatype reg_error = DuplicatePolicy string | IncorrectApplyPoint jsval

datatype log_entry = LogError reg_error | LogInfo string

record server =
  exts :: "stage list"
  logs :: "log_entry list"

text \<open>
  \<open>filename.match(/(.+)\.js$/)\<close>: the file name must end in \<open>.js\<close> after at least one
  character that is not a line terminator; the captured name starts after the last line
  terminator before the suffix. The line terminators are line feed and carriage return
  (a \<open>string\<close> here has no \<open>U+2028\<close> or \<open>U+2029\<close>).
\<close>

definition match_js :: "string \<Rightarrow> string option" where
  "match_js filename =
     (let n = length filename in
      if 3 \<le> n \<and> drop (n - 3) filename = ''.js'' then
        (let stem = rev (takeWhile (\<lambda>c. c \<noteq> CHR 0x0A \<and> c \<noteq> CHR 0x0D)
                           (rev (take (n - 3) filename)))
         in if stem = [] then None else Some stem)
      else None)"

text \<open>
  \<open>options.defaultApplyPoint || 'onPreHandler'\<close>. \<open>exports.register\<close> asserts that the
  configured value is one of \<open>aApplicablePoints\<close>, so the option is a stage when present
  (\<open>None\<close> is an absent or falsy option).
\<close>

definition defaultApplyPoint :: "stage option \<Rightarrow> stage" where
  "defaultApplyPoint opt = (case opt of None \<Rightarrow> onPreHandler | Some p \<Rightarrow> p)"

text \<open>
  One call of \<open>addPolicy\<close> for a file name and the module that \<open>require\<close> returns for it.
  The result is the error passed to \<open>addPolicyNext\<close> (\<open>None\<close> for a call without
  argument), the registry and the server. \<open>policy.applyPoint || options.defaultApplyPoint\<close>
  is reached only after \<open>hasValidApplyPoint\<close>, where a truthy apply point is a stage.
\<close>

definition addPolicy ::
  "stage option \<Rightarrow> string \<Rightarrow> ('f, 'h) policy \<Rightarrow> ('f, 'h) oData \<times> server
     \<Rightarrow> reg_error option \<times> ('f, 'h) oData \<times> server" where
  "addPolicy opt filename policy s =
     (case s of (d, sv) \<Rightarrow>
      (case match_js filename of
         None \<Rightarrow> (None, d, sv)
       | Some name \<Rightarrow>
           if name \<in> set (names d) then
             (Some (DuplicatePolicy name), d,
              sv\<lparr>logs := logs sv @ [LogError (DuplicatePolicy name)]\<rparr>)
           else if \<not> hasValidApplyPoint policy then
             (Some (IncorrectApplyPoint (applyPoint policy)), d,
              sv\<lparr>logs := logs sv @ [LogError (IncorrectApplyPoint (applyPoint policy))]\<rparr>)
           else if applyPoint policy = JUndefined \<or> truthy (applyPoint policy) then
             (let ap = (case js_stage (applyPoint policy) of
                          Some p \<Rightarrow> p
                        | None \<Rightarrow> defaultApplyPoint opt);
                  d' = d\<lparr>names := names d @ [name],
                         rawPolicies := obj_set (rawPolicies d) name policy,
                         points := (points d)(ap := obj_set (points d ap) name policy)\<rparr>;
                  sv' = sv\<lparr>logs := logs sv @ [LogInfo name]\<rparr>
              in if ap \<notin> setHandlers d' then
                   (None, d'\<lparr>setHandlers := insert ap (setHandlers d')\<rparr>,
                    sv'\<lparr>exts := exts sv' @ [ap]\<rparr>)
                 else (None, d', sv'))
           else (None, d, sv)))"

text \<open>
  \<open>oItems.serial(policyFiles, addPolicy, ...)\<close>: the files in order, stopping at the first
  error, which is passed to \<open>next\<close>. An empty directory calls \<open>next()\<close> at once.
\<close>

fun loadPolicies ::
  "stage option \<Rightarrow> (string \<times> ('f, 'h) policy) list \<Rightarrow> ('f, 'h) oData \<times> server
     \<Rightarrow> reg_error option \<times> ('f, 'h) oData \<times> server" where
  "loadPolicies opt [] s = (None, s)"
| "loadPolicies opt ((filename, policy) # files) s =
     (case addPolicy opt filename policy s of
        (Some e, s') \<Rightarrow> (Some e, s')
      | (None, s') \<Rightarrow> loadPolicies opt files s')"

text \<open>
  A registry lifetime without \<open>reset\<close>: a sequence of \<open>loadPolicies\<close> calls, each with its
  options and its directory listing; the error of a call goes to its caller.
\<close>

fun lifetime ::
  "(stage option \<times> (string \<times> ('f, 'h) policy) list) list \<Rightarrow> ('f, 'h) oData \<times> server
     \<Rightarrow> ('f, 'h) oData \<times> server" where
  "lifetime [] s = s"
| "lifetime ((opt, files) # calls) s = lifetime calls (snd (loadPolicies opt files s))"

section \<open>The apply point of an aggregate\<close>

text \<open>\<open>_.uniq\<close> keeps the first occurrence of each value; \<open>_.intersection(xs, ys)\<close> is the
  unique values of \<open>xs\<close> that occur in \<open>ys\<close>, in the order of \<open>xs\<close>.\<close>

fun uniq :: "'a list \<Rightarrow> 'a list" where
  "uniq [] = []"
| "uniq (x # xs) = x # removeAll x (uniq xs)"

definition intersection :: "'a list \<Rightarrow> 'a list \<Rightarrow> 'a list" where
  "intersection xs ys = uniq (filter (\<lambda>x. x \<in> set ys) xs)"

datatype assertion =
  RequiresNonEmpty
| RequiresLoadedNames
| RequiresValidApplyPoint
| RequiresSameApplyPoint
| RequiresArgument
| RequiresUnique

text \<open>
  The loop over \<open>aApplicablePoints\<close>: the variable \<open>applyPoint\<close> (here \<open>ap\<close>) is set at
  the first apply point whose object has the first policy name among its keys, and is
  not changed afterwards.
\<close>

definition firstApplyPoint :: "('f, 'h) oData \<Rightarrow> string \<Rightarrow> stage option" where
  "firstApplyPoint d sFirstPolicy =
     foldl (\<lambda>ap p.
              if ap = None \<and> sFirstPolicy \<in> set (obj_keys (points d p))
              then Some p else ap)
           None aApplicablePoints"

text \<open>
  The function that \<open>_.memoize\<close> wraps. The argument is an array of names, so the first
  assertion (\<open>_.isArray\<close>) holds; each other failed \<open>oHoek.assert\<close> is an \<open>Inl\<close>.
\<close>

definition aggregateApplyPoint :: "('f, 'h) oData \<Rightarrow> string list \<Rightarrow> assertion + stage" where
  "aggregateApplyPoint d aPolicyNames =
     (case aPolicyNames of
        [] \<Rightarrow> Inl RequiresNonEmpty
      | sFirstPolicy # _ \<Rightarrow>
          if length (intersection (names d) aPolicyNames) \<noteq> length aPolicyNames
          then Inl RequiresLoadedNames
          else (case firstApplyPoint d sFirstPolicy of
                  None \<Rightarrow> Inl RequiresValidApplyPoint
                | Some ap \<Rightarrow>
                    if length (intersection (obj_keys (points d ap)) aPolicyNames)
                         \<noteq> length aPolicyNames
                    then Inl RequiresSameApplyPoint
                    else Inr ap))"

text \<open>
  The memoized function: a cached key returns the cached apply point; otherwise the
  function runs and a returned apply point is cached (a failed assertion is not).
\<close>

definition determineAggregateApplyPoint ::
  "(string list \<Rightarrow> 'k) \<Rightarrow> ('f, 'h) oData \<Rightarrow> 'k memo \<Rightarrow> string list
     \<Rightarrow> (assertion + stage) \<times> 'k memo" where
  "determineAggregateApplyPoint key d cache aPolicyNames =
     (case map_of cache (key aPolicyNames) of
        Some ap \<Rightarrow> (Inr ap, cache)
      | None \<Rightarrow>
          (case aggregateApplyPoint d aPolicyNames of
             Inl a \<Rightarrow> (Inl a, cache)
           | Inr ap \<Rightarrow> (Inr ap, cache @ [(key aPolicyNames, ap)])))"

text \<open>
  The cache agrees with the registry: an entry found for a list of registered names is
  what \<open>aggregateApplyPoint\<close> computes for that list.
\<close>

definition cache_agrees :: "(string list \<Rightarrow> 'k) \<Rightarrow> ('f, 'h) oData \<Rightarrow> 'k memo \<Rightarrow> bool" where
  "cache_agrees key d cache \<longleftrightarrow>
     (\<forall>ns ap. set ns \<subseteq> set (names d) \<longrightarrow> map_of cache (key ns) = Some ap
        \<longrightarrow> aggregateApplyPoint d ns = Inr ap)"

section \<open>\<open>exports.parallel\<close> and its default error handler\<close>

text \<open>
  The arguments of a policy's callback \<open>(err, canContinue, message)\<close>, which are also the
  fields of the result object that \<open>wrapPolicy\<close> records. \<open>err = None\<close> is a falsy error,
  \<open>canContinue\<close> is the truth value of the second argument, \<open>message = None\<close> is
  \<open>undefined\<close>.
\<close>

record 'e result =
  err :: "'e option"
  canContinue :: bool
  message :: "string option"

datatype thrown = TypeError

text \<open>
  The \<open>_.forEach\<close> of \<open>defaultErrorHandler\<close>: the calls of \<open>next\<close> it makes, and the
  \<open>TypeError\<close> of reading \<open>result.err\<close> when \<open>results\<close> has no entry for a name.
  \<open>return false\<close> leaves the iteration (not the handler).
\<close>

fun forEach_ranPolicies ::
  "string list \<Rightarrow> 'e result obj \<Rightarrow> 'e result list \<times> thrown option" where
  "forEach_ranPolicies [] results = ([], None)"
| "forEach_ranPolicies (oPolicy # rest) results =
     (case obj_get results oPolicy of
        None \<Rightarrow> ([], Some TypeError)
      | Some result \<Rightarrow>
          if err result \<noteq> None \<or> \<not> canContinue result
          then ([\<lparr>err = err result, canContinue = canContinue result,
                   message = message result\<rparr>], None)
          else forEach_ranPolicies rest results)"

text \<open>The handler: the iteration, then \<open>next(null, true)\<close>. The result lists every call
  of \<open>next\<close> in order.\<close>

definition defaultErrorHandler ::
  "string list \<Rightarrow> 'e result obj \<Rightarrow> 'e result list \<times> thrown option" where
  "defaultErrorHandler ranPolicies results =
     (case forEach_ranPolicies ranPolicies results of
        (calls, Some t) \<Rightarrow> (calls, Some t)
      | (calls, None) \<Rightarrow>
          (calls @ [\<lparr>err = None, canContinue = True, message = None\<rparr>], None))"

text \<open>
  \<open>exports.parallel\<close>, its arguments given as the names and, when the last argument is a
  function, that error handler. \<open>arguments.length\<close> counts both.
\<close>

definition parallel :: "string list \<Rightarrow> 'h option \<Rightarrow> assertion + ('f, 'h) policy" where
  "parallel policyNames errorHandler =
     (if length policyNames + (case errorHandler of None \<Rightarrow> 0 | Some h \<Rightarrow> 1) = 0
      then Inl RequiresArgument
      else if length (uniq policyNames) \<noteq> length policyNames then Inl RequiresUnique
      else Inr \<lparr>applyPoint = JUndefined, runs = Some policyNames,
                body = Aggregate policyNames errorHandler\<rparr>)"

section \<open>Running policies in order\<close>

text \<open>
  The errors given to \<open>reply\<close>: the three \<open>oBoom\<close> errors of this module and the error a
  policy passes to its callback.
  \<^item> \<open>MissingPolicy n\<close> is \<open>oBoom.notImplemented('Missing policy: ' + n)\<close>;
  \<^item> \<open>IncorrectDynamicApplyPoint v\<close> is \<open>oBoom.badImplementation\<close> for an inline policy with
    apply point \<open>v\<close>;
  \<^item> \<open>NotNameOrFunction\<close> is
    \<open>oBoom.badImplementation('Policy not specified by name or by function.')\<close>;
  \<^item> \<open>Forbidden m\<close> is \<open>oBoom.forbidden(m)\<close>.
\<close>

datatype 'e boom =
  MissingPolicy string
| IncorrectDynamicApplyPoint jsval
| NotNameOrFunction
| Forbidden "string option"
| PolicyError 'e

fun statusCode :: "'e boom \<Rightarrow> nat option" where
  "statusCode (MissingPolicy n) = Some 501"
| "statusCode (IncorrectDynamicApplyPoint v) = Some 500"
| "statusCode NotNameOrFunction = Some 500"
| "statusCode (Forbidden m) = Some 403"
| "statusCode (PolicyError e) = None"

text \<open>
  The reply interface: \<open>reply(err)\<close> and \<open>reply.continue()\<close> are recorded in call order,
  and each sets \<open>reply._replied\<close>.
\<close>

datatype 'e response = Continue | Reply "'e boom"

record 'e reply =
  replied :: bool
  responses :: "'e response list"

definition respond :: "'e reply \<Rightarrow> 'e response \<Rightarrow> 'e reply" where
  "respond r x = r\<lparr>replied := True, responses := responses r @ [x]\<rparr>"

text \<open>
  What a policy does when it is called with the request of this dispatch is a parameter
  \<open>invoke\<close>: its actions in order. An action is a response the policy gives through
  \<open>reply\<close> itself, a call of its callback with \<open>(err, canContinue, message)\<close>, or an
  exception that it throws. A policy may call its callback any number of times; each
  call runs to its end before the policy goes on.
\<close>

datatype 'e action = Replies "'e response" | CallsBack "'e result" | Throws thrown

type_synonym ('p, 'e) invoke = "'p \<Rightarrow> 'e action list"

text \<open>
  \<open>aggregatePolicy\<close>, the closure that \<open>exports.parallel\<close> returns, as the actions it
  makes from the actions of its sub-policies. The sub-policies are the entries of
  \<open>oData.rawPolicies\<close> for the names (\<open>_.pick\<close> leaves out a name without entry), called in
  that order by \<open>oItems.parallel.execute\<close>. Each call of a sub-policy's callback stores
  its arguments as the result of that name (\<open>wrapPolicy\<close>) and counts; when the count
  reaches the number of sub-policies, the error handler is called with the results so
  far, and its calls of \<open>next\<close> are the aggregate's calls of its callback. Without
  sub-policies the error handler is called at once. The error handler is
  \<open>defaultErrorHandler\<close> or what \<open>custom\<close> says of the handler given to \<open>parallel\<close>.
\<close>

definition callErrorHandler ::
  "('h \<Rightarrow> string list \<Rightarrow> 'e result obj \<Rightarrow> 'e result list \<times> thrown option) \<Rightarrow> 'h option
     \<Rightarrow> string list \<Rightarrow> 'e result obj \<Rightarrow> 'e action list" where
  "callErrorHandler custom handler policyNames results =
     (case (case handler of
              None \<Rightarrow> defaultErrorHandler policyNames results
            | Some h \<Rightarrow> custom h policyNames results) of
        (calls, None) \<Rightarrow> map CallsBack calls
      | (calls, Some t) \<Rightarrow> map CallsBack calls @ [Throws t])"

text \<open>
  \<open>execute\<close> goes through the actions of the sub-policies, each with the name of its
  sub-policy: \<open>results\<close> and \<open>nCount\<close> are the \<open>result\<close> and \<open>count\<close> of
  \<open>oItems.parallel.execute\<close>, \<open>n\<close> the number of sub-policies, \<open>callback\<close> the error handler
  on the results. An exception, of a sub-policy or of the error handler, ends the
  aggregate.
\<close>

fun throws :: "'e action list \<Rightarrow> bool" where
  "throws [] = False"
| "throws (Throws t # acts) = True"
| "throws (a # acts) = throws acts"

fun execute ::
  "('e result obj \<Rightarrow> 'e action list) \<Rightarrow> nat \<Rightarrow> (string \<times> 'e action) list \<Rightarrow> 'e result obj
     \<Rightarrow> nat \<Rightarrow> 'e action list" where
  "execute callback n [] results nCount = []"
| "execute callback n ((k, Replies x) # evs) results nCount =
     Replies x # execute callback n evs results nCount"
| "execute callback n ((k, Throws t) # evs) results nCount = [Throws t]"
| "execute callback n ((k, CallsBack v) # evs) results nCount =
     (if Suc nCount = n
      then (let acts = callback (obj_set results k v)
            in if throws acts then acts
               else acts @ execute callback n evs (obj_set results k v) (Suc nCount))
      else execute callback n evs (obj_set results k v) (Suc nCount))"

definition aggregatePolicy ::
  "('h \<Rightarrow> string list \<Rightarrow> 'e result obj \<Rightarrow> 'e result list \<times> thrown option)
     \<Rightarrow> (('f, 'h) policy, 'e) invoke \<Rightarrow> ('f, 'h) oData \<Rightarrow> string list \<Rightarrow> 'h option
     \<Rightarrow> 'e action list" where
  "aggregatePolicy custom invoke d policyNames handler =
     (let policies = concat (map (\<lambda>n. case obj_get (rawPolicies d) n of
                                         None \<Rightarrow> []
                                       | Some p \<Rightarrow> [(n, p)]) policyNames)
      in if policies = [] then callErrorHandler custom handler policyNames []
         else execute (callErrorHandler custom handler policyNames) (length policies)
                (concat (map (\<lambda>(n, p). map (Pair n) (invoke p)) policies)) [] 0)"

text \<open>
  The state of a run is the reply interface and the list of the policies called so far.
  \<open>checkPolicy\<close> calls the policy and turns each call of its callback into a call of
  \<open>next\<close>: with the error, with nothing when \<open>canContinue\<close> is truthy, and with
  \<open>oBoom.forbidden(message)\<close> otherwise.
\<close>

type_synonym ('p, 'e) run = "'e reply \<times> 'p list"

datatype 'e step = Next "'e boom option" | Responds "'e response" | Raises thrown

definition checkPolicy :: "('p, 'e) invoke \<Rightarrow> 'p \<Rightarrow> 'e step list" where
  "checkPolicy invoke policy =
     map (\<lambda>a. case a of
                 Replies x \<Rightarrow> Responds x
               | Throws t \<Rightarrow> Raises t
               | CallsBack res \<Rightarrow>
                   (case err res of
                      Some e \<Rightarrow> Next (Some (PolicyError e))
                    | None \<Rightarrow>
                        if canContinue res then Next None
                        else Next (Some (Forbidden (message res)))))
         (invoke policy)"

text \<open>
  \<open>oItems.serial\<close> after its first call of \<open>method\<close>: \<open>rest\<close> are the items after the
  index \<open>i\<close> that all calls of \<open>done\<close> share, \<open>pending\<close> the steps still to come of the
  methods under way, innermost first. \<open>done(err)\<close> calls the final callback with the
  error; \<open>done()\<close> moves \<open>i\<close> on and calls \<open>method\<close> for the next item, or the final
  callback when there is none. Nothing stops a second \<open>done\<close> of the same item. An
  exception ends the run.
\<close>

fun serial ::
  "('p \<Rightarrow> 'e step list) \<Rightarrow> ('e boom option \<Rightarrow> ('p, 'e) run \<Rightarrow> ('p, 'e) run) \<Rightarrow> 'p list
     \<Rightarrow> 'e step list \<Rightarrow> ('p, 'e) run \<Rightarrow> thrown option \<times> ('p, 'e) run" where
  "serial method callback rest [] s = (None, s)"
| "serial method callback rest (Raises t # pending) s = (Some t, s)"
| "serial method callback rest (Responds x # pending) s =
     serial method callback rest pending (respond (fst s) x, snd s)"
| "serial method callback rest (Next (Some e) # pending) s =
     serial method callback rest pending (callback (Some e) s)"
| "serial method callback [] (Next None # pending) s =
     serial method callback [] pending (callback None s)"
| "serial method callback (p # ps) (Next None # pending) s =
     serial method callback ps (method p @ pending) (fst s, snd s @ [p])"

text \<open>
  \<open>runPolicies\<close>: the final callback replies only while \<open>reply._replied\<close> is false. For an
  empty list \<open>oItems.serial\<close> calls it at once. The result is the exception thrown (if
  any) and the state of the run.
\<close>

definition runPolicies_callback :: "'e boom option \<Rightarrow> ('p, 'e) run \<Rightarrow> ('p, 'e) run" where
  "runPolicies_callback e s =
     (if \<not> replied (fst s) then
        (case e of
           Some x \<Rightarrow> (respond (fst s) (Reply x), snd s)
         | None \<Rightarrow> (respond (fst s) Continue, snd s))
      else s)"

definition runPolicies ::
  "('p, 'e) invoke \<Rightarrow> 'p list \<Rightarrow> 'e reply \<Rightarrow> thrown option \<times> ('p, 'e) run" where
  "runPolicies invoke policiesToRun r =
     (case policiesToRun of
        [] \<Rightarrow> (None, runPolicies_callback None (r, []))
      | p # ps \<Rightarrow>
          serial (checkPolicy invoke) runPolicies_callback ps (checkPolicy invoke p) (r, [p]))"

section \<open>The stage handlers\<close>

text \<open>
  An entry of a route's \<open>plugins.policies\<close>: a string, an array (of names), a function,
  \<open>null\<close>, or any other value.
\<close>

datatype ('f, 'h) entry =
  EString string
| EArray "string list"
| EFunction "('f, 'h) policy"
| ENull
| EOther

text \<open>
  The outcome of the \<open>reduce\<close> over the entries: an assertion was thrown, the handler
  replied with an error (\<open>bRepliedWithError\<close>), or the list of policies to run.
\<close>

datatype ('f, 'h, 'e) classified =
  Threw assertion
| RepliedWithError "'e boom"
| PoliciesToRun "('f, 'h) policy list"

text \<open>
  The branch for a function entry; \<open>agg\<close> is \<open>aAggregateApplyPoint\<close>, set when the entry
  came from an array. After \<open>hasValidApplyPoint\<close> a truthy \<open>applyPoint\<close> is a stage, so
  \<open>xRoutePolicy.applyPoint || aAggregateApplyPoint || defaultApplyPoint\<close> is the stage of
  \<open>applyPoint\<close> when there is one.
\<close>

definition functionEntry ::
  "(string list \<Rightarrow> 'k) \<Rightarrow> stage \<Rightarrow> stage \<Rightarrow> ('f, 'h) oData \<Rightarrow> ('f, 'h) policy
     \<Rightarrow> stage option \<Rightarrow> ('f, 'h) policy list \<Rightarrow> 'k memo
     \<Rightarrow> ('f, 'h, 'e) classified \<times> 'k memo" where
  "functionEntry key oApplyPoint dflt d xRoutePolicy agg aTmpList cache =
     (case (case (agg, runs xRoutePolicy) of
              (None, Some rs) \<Rightarrow>
                if \<not> truthy (applyPoint xRoutePolicy) then
                  (case determineAggregateApplyPoint key d cache rs of
                     (Inl a, c) \<Rightarrow> (Inl a, c)
                   | (Inr ap, c) \<Rightarrow> (Inr (Some ap), c))
                else (Inr agg, cache)
            | _ \<Rightarrow> (Inr agg, cache)) of
        (Inl a, c) \<Rightarrow> (Threw a, c)
      | (Inr agg', c) \<Rightarrow>
          if \<not> hasValidApplyPoint xRoutePolicy then
            (RepliedWithError (IncorrectDynamicApplyPoint (applyPoint xRoutePolicy)), c)
          else
            (let effectiveApplyPoint =
                   (case js_stage (applyPoint xRoutePolicy) of
                      Some p \<Rightarrow> p
                    | None \<Rightarrow> (case agg' of Some p \<Rightarrow> p | None \<Rightarrow> dflt))
             in (PoliciesToRun (if effectiveApplyPoint = oApplyPoint
                                then aTmpList @ [xRoutePolicy] else aTmpList), c)))"

text \<open>
  The callback of the \<open>reduce\<close> for one entry, while \<open>bRepliedWithError\<close> is false. An
  array whose apply point is this handler's becomes \<open>exports.parallel.apply(this, array)\<close>
  and goes on as a function; any other array becomes \<open>null\<close>.
\<close>

definition routePolicy ::
  "(string list \<Rightarrow> 'k) \<Rightarrow> stage \<Rightarrow> stage \<Rightarrow> ('f, 'h) oData \<Rightarrow> ('f, 'h) entry
     \<Rightarrow> ('f, 'h) policy list \<Rightarrow> 'k memo \<Rightarrow> ('f, 'h, 'e) classified \<times> 'k memo" where
  "routePolicy key oApplyPoint dflt d xRoutePolicy aTmpList cache =
     (case xRoutePolicy of
        EArray ns \<Rightarrow>
          (case determineAggregateApplyPoint key d cache ns of
             (Inl a, c) \<Rightarrow> (Threw a, c)
           | (Inr ap, c) \<Rightarrow>
               if ap = oApplyPoint then
                 (case parallel ns None of
                    Inl a \<Rightarrow> (Threw a, c)
                  | Inr pol \<Rightarrow>
                      functionEntry key oApplyPoint dflt d pol (Some ap) aTmpList c)
               else (PoliciesToRun aTmpList, c))
      | EString sName \<Rightarrow>
          if sName \<in> set (names d) then (RepliedWithError (MissingPolicy sName), cache)
          else (case obj_get (points d oApplyPoint) sName of
                  Some pol \<Rightarrow> (PoliciesToRun (aTmpList @ [pol]), cache)
                | None \<Rightarrow> (PoliciesToRun aTmpList, cache))
      | EFunction pol \<Rightarrow> functionEntry key oApplyPoint dflt d pol None aTmpList cache
      | ENull \<Rightarrow> (PoliciesToRun aTmpList, cache)
      | EOther \<Rightarrow> (RepliedWithError NotNameOrFunction, cache))"

text \<open>The \<open>reduce\<close>: once the handler has replied, the remaining entries do nothing.\<close>

fun reduce_routePolicies ::
  "(string list \<Rightarrow> 'k) \<Rightarrow> stage \<Rightarrow> stage \<Rightarrow> ('f, 'h) oData \<Rightarrow> ('f, 'h) entry list
     \<Rightarrow> ('f, 'h) policy list \<Rightarrow> 'k memo \<Rightarrow> ('f, 'h, 'e) classified \<times> 'k memo" where
  "reduce_routePolicies key oApplyPoint dflt d [] aTmpList cache =
     (PoliciesToRun aTmpList, cache)"
| "reduce_routePolicies key oApplyPoint dflt d (x # xs) aTmpList cache =
     (case routePolicy key oApplyPoint dflt d x aTmpList cache of
        (PoliciesToRun aTmpList', c) \<Rightarrow>
          reduce_routePolicies key oApplyPoint dflt d xs aTmpList' c
      | (other, c) \<Rightarrow> (other, c))"

text \<open>
  \<open>aHandlers[oApplyPoint]\<close> for one request: \<open>aRoutePolicies\<close> is \<open>None\<close> when the route
  has no \<open>plugins.policies\<close>, \<open>dflt\<close> is the server's \<open>defaultApplyPoint\<close>. The result is
  the exception that leaves the handler (a failed assertion or what a policy throws, if
  any), the reply interface with the policies called, and the cache.
\<close>

definition handler ::
  "(string list \<Rightarrow> 'k) \<Rightarrow> stage \<Rightarrow> stage \<Rightarrow> (('f, 'h) policy, 'e) invoke
     \<Rightarrow> ('f, 'h) oData \<Rightarrow> 'k memo \<Rightarrow> ('f, 'h) entry list option \<Rightarrow> 'e reply
     \<Rightarrow> (assertion + thrown) option \<times> (('f, 'h) policy, 'e) run \<times> 'k memo" where
  "handler key oApplyPoint dflt invoke d cache aRoutePolicies fReply =
     (case aRoutePolicies of
        None \<Rightarrow> (None, (respond fReply Continue, []), cache)
      | Some entries \<Rightarrow>
          (case reduce_routePolicies key oApplyPoint dflt d entries [] cache of
             (Threw a, c) \<Rightarrow> (Some (Inl a), (fReply, []), c)
           | (RepliedWithError b, c) \<Rightarrow> (None, (respond fReply (Reply b), []), c)
           | (PoliciesToRun aPoliciesToRun, c) \<Rightarrow>
               (case runPolicies invoke aPoliciesToRun fReply of
                  (t, run) \<Rightarrow> (map_option Inr t, run, c))))"

section \<open>Histories of the module\<close>

text \<open>
  What changes \<open>oData\<close> and the cache: a call of \<open>loadPolicies\<close>, a call of \<open>reset\<close>, a
  request handled by the handler of an apply point, and a call of the resolver (the
  handlers make them). A history is a list of such operations, applied in order to the
  registry, the cache and the server.
\<close>

datatype ('f, 'h, 'e) operation =
  LoadPolicies "stage option" "(string \<times> ('f, 'h) policy) list"
| Reset
| Resolve "string list"
| Dispatch stage stage "(('f, 'h) policy, 'e) invoke" "('f, 'h) entry list option" "'e reply"

fun operate ::
  "(string list \<Rightarrow> 'k) \<Rightarrow> ('f, 'h, 'e) operation \<Rightarrow> ('f, 'h) oData \<times> 'k memo \<times> server
     \<Rightarrow> ('f, 'h) oData \<times> 'k memo \<times> server" where
  "operate key (LoadPolicies opt files) (d, cache, sv) =
     (case loadPolicies opt files (d, sv) of (e, d', sv') \<Rightarrow> (d', cache, sv'))"
| "operate key Reset (d, cache, sv) =
     (case reset (d, cache) of (d', cache') \<Rightarrow> (d', cache', sv))"
| "operate key (Resolve ns) (d, cache, sv) =
     (d, snd (determineAggregateApplyPoint key d cache ns), sv)"
| "operate key (Dispatch oApplyPoint dflt invoke aRoutePolicies fReply) (d, cache, sv) =
     (d, snd (snd (handler key oApplyPoint dflt invoke d cache aRoutePolicies fReply)), sv)"

fun history ::
  "(string list \<Rightarrow> 'k) \<Rightarrow> ('f, 'h, 'e) operation list \<Rightarrow> ('f, 'h) oData \<times> 'k memo \<times> server
     \<Rightarrow> ('f, 'h) oData \<times> 'k memo \<times> server" where
  "history key [] w = w"
| "history key (x # xs) w = history key xs (operate key x w)"

text \<open>
  What the operations maintain of the cache: every entry is the key of a list for which
  \<open>aggregateApplyPoint\<close> returns the entry's apply point in the registry as it is now.
\<close>

definition cache_sound :: "(string list \<Rightarrow> 'k) \<Rightarrow> ('f, 'h) oData \<Rightarrow> 'k memo \<Rightarrow> bool" where
  "cache_sound key d cache \<longleftrightarrow>
     (\<forall>k ap. (k, ap) \<in> set cache \<longrightarrow> (\<exists>ns. key ns = k \<and> aggregateApplyPoint d ns = Inr ap))"

section \<open>Invariants of the registry\<close>

text \<open>
  The registry after a successful registration of \<open>name\<close> under the apply point \<open>ap\<close>.
\<close>

definition registered ::
  "('f, 'h) oData \<Rightarrow> string \<Rightarrow> ('f, 'h) policy \<Rightarrow> stage \<Rightarrow> ('f, 'h) oData" where
  "registered d name policy ap =
     d\<lparr>names := names d @ [name],
       rawPolicies := obj_set (rawPolicies d) name policy,
       points := (points d)(ap := obj_set (points d ap) name policy),
       setHandlers := insert ap (setHandlers d)\<rparr>"

text \<open>
  What registration maintains: every key of an apply point's object and of the policy
  table is a registered name, no name is under two apply points, and a handler is marked
  connected exactly for the apply points that have a policy.
\<close>

definition registry_inv :: "('f, 'h) oData \<Rightarrow> bool" where
  "registry_inv d \<longleftrightarrow>
     (\<forall>p. set (obj_keys (points d p)) \<subseteq> set (names d))
   \<and> (\<forall>p q. p \<noteq> q \<longrightarrow> set (obj_keys (points d p)) \<inter> set (obj_keys (points d q)) = {})
   \<and> setHandlers d = {p. points d p \<noteq> []}
   \<and> set (obj_keys (rawPolicies d)) \<subseteq> set (names d)"

text \<open>
  Since the server \<open>sv0\<close>, \<open>server.ext\<close> was called once for each connected apply point.
\<close>

definition connected_once :: "server \<Rightarrow> ('f, 'h) oData \<times> server \<Rightarrow> bool" where
  "connected_once sv0 s \<longleftrightarrow>
     registry_inv (fst s)
   \<and> (\<exists>new. exts (snd s) = exts sv0 @ new \<and> distinct new \<and> set new = setHandlers (fst s))"

section \<open>A small registry for the examples\<close>

text \<open>
  Three policy files: \<open>isAdmin.js\<close> without an apply point (so registered under the
  default \<open>onPreHandler\<close>), \<open>isLoggedIn.js\<close> with apply point \<open>onPreAuth\<close> and
  \<open>isOwner.js\<close> with apply point \<open>onPreHandler\<close>.
\<close>

definition isAdmin :: "(unit, unit) policy" where
  "isAdmin = \<lparr>applyPoint = JUndefined, runs = None, body = Plain ()\<rparr>"

definition isLoggedIn :: "(unit, unit) policy" where
  "isLoggedIn = \<lparr>applyPoint = JStr ''onPreAuth'', runs = None, body = Plain ()\<rparr>"

definition isOwner :: "(unit, unit) policy" where
  "isOwner = \<lparr>applyPoint = JStr ''onPreHandler'', runs = None, body = Plain ()\<rparr>"

definition example_files :: "(string \<times> (unit, unit) policy) list" where
  "example_files =
     [(''isAdmin.js'', isAdmin), (''isLoggedIn.js'', isLoggedIn), (''isOwner.js'', isOwner)]"

definition example_oData :: "(unit, unit) oData" where
  "example_oData =
     \<lparr>names = [''isAdmin'', ''isLoggedIn'', ''isOwner''],
      rawPolicies = [(''isAdmin'', isAdmin), (''isLoggedIn'', isLoggedIn), (''isOwner'', isOwner)],
      setHandlers = {onPreHandler, onPreAuth},
      points = (\<lambda>p. [])(onPreHandler := [(''isAdmin'', isAdmin), (''isOwner'', isOwner)],
                            onPreAuth := [(''isLoggedIn'', isLoggedIn)])\<rparr>"

definition new_server :: server where
  "new_server = \<lparr>exts = [], logs = []\<rparr>"

definition example_server :: server where
  "example_server =
     \<lparr>exts = [onPreHandler, onPreAuth],
      logs = [LogInfo ''isAdmin'', LogInfo ''isLoggedIn'', LogInfo ''isOwner'']\<rparr>"

definition new_reply :: "unit reply" where
  "new_reply = \<lparr>replied = False, responses = []\<rparr>"

text \<open>Every policy calls back once with \<open>(null, true)\<close> and leaves \<open>reply\<close> alone.\<close>

definition always_continue :: "((unit, unit) policy, unit) invoke" where
  "always_continue p = [CallsBack \<lparr>err = None, canContinue = True, message = None\<rparr>]"

text \<open>
  The policies of the example as functions: \<open>isAdmin\<close> calls back once with
  \<open>(null, false, 'denied')\<close>, the others once with \<open>(null, true)\<close>. An aggregate does what
  \<open>aggregatePolicy\<close> says for its names in the example registry. \<open>isAdmin_parallel\<close> is
  \<open>parallel('isAdmin')\<close>, which is also what the handler makes of the route entry
  \<open>['isAdmin']\<close>.
\<close>

definition example_function :: "((unit, unit) policy, unit) invoke" where
  "example_function p =
     [CallsBack (if p = isAdmin
                 then \<lparr>err = None, canContinue = False, message = Some ''denied''\<rparr>
                 else \<lparr>err = None, canContinue = True, message = None\<rparr>)]"

definition example_invoke :: "((unit, unit) policy, unit) invoke" where
  "example_invoke p =
     (case body p of
        Plain f \<Rightarrow> example_function p
      | Aggregate policyNames eh \<Rightarrow>
          aggregatePolicy (\<lambda>h. defaultErrorHandler) example_function example_oData
            policyNames eh)"

definition isAdmin_parallel :: "(unit, unit) policy" where
  "isAdmin_parallel =
     \<lparr>applyPoint = JUndefined, runs = Some [''isAdmin''], body = Aggregate [''isAdmin''] None\<rparr>"

section \<open>Lemmas about objects and registration\<close>

lemma obj_keys_obj_set: "set (obj_keys (obj_set ob k v)) = insert k (set (obj_keys ob))"
  by (induction ob k v rule: obj_set.induct) (auto simp: obj_keys_def split: if_splits)

lemma obj_set_nonempty: "obj_set ob k v \<noteq> []"
  by (cases ob) (auto split: if_splits)

lemma obj_get_None: "k \<notin> set (obj_keys ob) \<Longrightarrow> obj_get ob k = None"
  by (simp add: obj_get_def obj_keys_def map_of_eq_None_iff)

lemma addPolicy_cases:
  assumes "addPolicy opt filename policy (d, sv) = (e, d', sv')"
  shows "(d' = d \<and> exts sv' = exts sv)
       \<or> (\<exists>name ap. match_js filename = Some name \<and> name \<notin> set (names d) \<and> e = None
            \<and> d' = registered d name policy ap
            \<and> exts sv' = (if ap \<in> setHandlers d then exts sv else exts sv @ [ap]))"
proof (cases "match_js filename")
  case None
  with assms show ?thesis by (simp add: addPolicy_def)
next
  case (Some name)
  show ?thesis
  proof (cases "name \<in> set (names d) \<or> \<not> hasValidApplyPoint policy
                \<or> \<not> (applyPoint policy = JUndefined \<or> truthy (applyPoint policy))")
    case True
    with assms Some show ?thesis
      by (auto simp: addPolicy_def split: if_splits)
  next
    case False
    define ap where "ap = (case js_stage (applyPoint policy) of
                             Some p \<Rightarrow> p | None \<Rightarrow> defaultApplyPoint opt)"
    have "e = None \<and> d' = registered d name policy ap
          \<and> exts sv' = (if ap \<in> setHandlers d then exts sv else exts sv @ [ap])"
      using assms Some False
      by (auto simp: addPolicy_def registered_def Let_def ap_def insert_absorb
               split: if_splits)
    with Some False show ?thesis by blast
  qed
qed

lemma registered_inv:
  assumes "registry_inv d" and "name \<notin> set (names d)"
  shows "registry_inv (registered d name policy ap)"
  using assms unfolding registry_inv_def registered_def
  by (auto simp: obj_keys_obj_set obj_set_nonempty)

lemma addPolicy_inv:
  assumes "registry_inv d" and "addPolicy opt filename policy (d, sv) = (e, d', sv')"
  shows "registry_inv d'"
  using addPolicy_cases [OF assms(2)] assms(1) by (auto intro: registered_inv)

lemma registry_inv_empty: "registry_inv empty_oData"
  by (simp add: registry_inv_def empty_oData_def obj_keys_def)

lemma connected_once_empty: "connected_once sv0 (empty_oData, sv0)"
  by (simp add: connected_once_def registry_inv_empty) (simp add: empty_oData_def)

lemma addPolicy_connected_once:
  assumes "connected_once sv0 (d, sv)"
    and "addPolicy opt filename policy (d, sv) = (e, d', sv')"
  shows "connected_once sv0 (d', sv')"
proof -
  from assms(1) obtain new where inv: "registry_inv d"
    and new: "exts sv = exts sv0 @ new" "distinct new" "set new = setHandlers d"
    by (auto simp: connected_once_def)
  have inv': "registry_inv d'"
    using addPolicy_inv [OF inv assms(2)] .
  from addPolicy_cases [OF assms(2)] show ?thesis
  proof (elim disjE exE conjE)
    assume "d' = d" "exts sv' = exts sv"
    with assms(1) show ?thesis by (simp add: connected_once_def)
  next
    fix name ap
    assume d': "d' = registered d name policy ap"
      and ex: "exts sv' = (if ap \<in> setHandlers d then exts sv else exts sv @ [ap])"
    show ?thesis
    proof (cases "ap \<in> setHandlers d")
      case True
      with d' ex new inv' show ?thesis
        by (auto simp: connected_once_def registered_def insert_absorb)
    next
      case False
      with d' ex new have "exts sv' = exts sv0 @ (new @ [ap])"
        "distinct (new @ [ap])" "set (new @ [ap]) = setHandlers d'"
        by (auto simp: registered_def)
      with inv' show ?thesis
        unfolding connected_once_def fst_conv snd_conv by blast
    qed
  qed
qed

lemma loadPolicies_connected_once:
  "connected_once sv0 s \<Longrightarrow> connected_once sv0 (snd (loadPolicies opt files s))"
proof (induction files arbitrary: s)
  case Nil
  then show ?case by simp
next
  case (Cons a files)
  obtain filename policy where a: "a = (filename, policy)" by (cases a)
  obtain d sv where s: "s = (d, sv)" by (cases s)
  obtain e d' sv' where r: "addPolicy opt filename policy (d, sv) = (e, d', sv')"
    by (cases "addPolicy opt filename policy (d, sv)") auto
  have c: "connected_once sv0 (d', sv')"
    using addPolicy_connected_once [OF _ r] Cons.prems s by simp
  show ?case
  proof (cases e)
    case None
    with Cons.IH [OF c] a s r show ?thesis by simp
  next
    case (Some x)
    with c a s r show ?thesis by simp
  qed
qed

lemma lifetime_connected_once:
  "connected_once sv0 s \<Longrightarrow> connected_once sv0 (lifetime calls s)"
proof (induction calls arbitrary: s)
  case Nil
  then show ?case by simp
next
  case (Cons c calls)
  obtain opt files where c: "c = (opt, files)" by (cases c)
  show ?case
    using Cons.IH [OF loadPolicies_connected_once [OF Cons.prems, of opt files]] c by simp
qed


lemma filter_points_single:
  "filter (\<lambda>p. p = ap \<and> P) aApplicablePoints = (if P then [ap] else [])"
  by (cases ap) (auto simp: aApplicablePoints_def)

lemma addPolicy_connects:
  assumes "registry_inv d"
    and "addPolicy opt filename policy (d, sv) = (e, d', sv')"
  shows "exts sv' = exts sv @ filter (\<lambda>p. points d p = [] \<and> points d' p \<noteq> []) aApplicablePoints"
proof -
  from addPolicy_cases [OF assms(2)] show ?thesis
  proof (elim disjE exE conjE)
    assume "d' = d" "exts sv' = exts sv"
    then show ?thesis by simp
  next
    fix name ap
    assume d': "d' = registered d name policy ap"
      and ex: "exts sv' = (if ap \<in> setHandlers d then exts sv else exts sv @ [ap])"
    have "(\<lambda>p. points d p = [] \<and> points d' p \<noteq> []) = (\<lambda>p. p = ap \<and> points d ap = [])"
      using d' by (auto simp: registered_def obj_set_nonempty fun_eq_iff)
    moreover have "ap \<in> setHandlers d \<longleftrightarrow> points d ap \<noteq> []"
      using assms(1) by (simp add: registry_inv_def)
    ultimately show ?thesis
      using ex by (simp add: filter_points_single)
  qed
qed

lemma addPolicy_server_independent:
  assumes "addPolicy opt filename policy (d, sv) = (e, d', sv')"
  shows "\<exists>sv''. addPolicy opt filename policy (d, sv2) = (e, d', sv'')"
  using assms by (auto simp: addPolicy_def Let_def split: option.splits if_splits)

lemma loadPolicies_server_independent:
  "loadPolicies opt files (d, sv) = (e, d', sv')
   \<Longrightarrow> \<exists>sv''. loadPolicies opt files (d, sv2) = (e, d', sv'')"
proof (induction files arbitrary: d sv sv2)
  case Nil
  then show ?case by simp
next
  case (Cons a files)
  obtain filename policy where a: "a = (filename, policy)" by (cases a)
  obtain e1 d1 sv1 where r: "addPolicy opt filename policy (d, sv) = (e1, d1, sv1)"
    by (cases "addPolicy opt filename policy (d, sv)") auto
  from addPolicy_server_independent [OF r, of sv2]
  obtain sv1' where r2: "addPolicy opt filename policy (d, sv2) = (e1, d1, sv1')" ..
  show ?case
  proof (cases e1)
    case None
    with Cons.prems a r have "loadPolicies opt files (d1, sv1) = (e, d', sv')" by simp
    from Cons.IH [OF this, of sv1'] None a r2 show ?thesis by simp
  next
    case (Some x)
    with Cons.prems a r r2 show ?thesis by auto
  qed
qed

section \<open>The example registry is what registration builds\<close>

lemma match_js_examples:
  "match_js ''isAdmin.js'' = Some ''isAdmin''"
  "match_js ''isLoggedIn.js'' = Some ''isLoggedIn''"
  "match_js ''isOwner.js'' = Some ''isOwner''"
  "match_js ''isGuest.js'' = Some ''isGuest''"
  by (simp_all add: match_js_def)

lemma js_stage_examples:
  "js_stage JUndefined = None"
  "js_stage (JStr ''onPreAuth'') = Some onPreAuth"
  "js_stage (JStr ''onPreHandler'') = Some onPreHandler"
  by (simp_all add: js_stage_def aApplicablePoints_def)

lemma example_loadPolicies:
  "loadPolicies None example_files (empty_oData, new_server) =
     (None, example_oData, example_server)"
  by (simp add: example_files_def example_oData_def example_server_def addPolicy_def
      match_js_examples js_stage_examples isAdmin_def isLoggedIn_def isOwner_def
      hasValidApplyPoint_def defaultApplyPoint_def empty_oData_def new_server_def
      insert_commute fun_eq_iff)

lemma example_lifetime:
  "lifetime [(None, example_files)] (empty_oData, new_server) = (example_oData, example_server)"
  by (simp add: example_loadPolicies)

lemma example_history:
  "history (\<lambda>ns. ns) [LoadPolicies None example_files, Resolve [''isAdmin'', ''isOwner'']]
     (empty_oData, [], new_server) =
   (example_oData, [([''isAdmin'', ''isOwner''], onPreHandler)], example_server)"
proof -
  have "aggregateApplyPoint example_oData [''isAdmin'', ''isOwner''] = Inr onPreHandler"
    by (simp add: aggregateApplyPoint_def intersection_def firstApplyPoint_def
        aApplicablePoints_def obj_keys_def example_oData_def)
  then show ?thesis
    by (simp add: example_loadPolicies determineAggregateApplyPoint_def)
qed

lemma routePolicy_registered_name:
  "sName \<in> set (names d) \<Longrightarrow>
   routePolicy key oApplyPoint dflt d (EString sName) aTmpList cache =
     (RepliedWithError (MissingPolicy sName), cache)"
  by (simp add: routePolicy_def)

lemma routePolicy_unregistered_name:
  "registry_inv d \<Longrightarrow> sName \<notin> set (names d) \<Longrightarrow>
   routePolicy key oApplyPoint dflt d (EString sName) aTmpList cache =
     (PoliciesToRun aTmpList, cache)"
proof -
  assume inv: "registry_inv d" and n: "sName \<notin> set (names d)"
  have "obj_get (points d oApplyPoint) sName = None"
    using inv n by (intro obj_get_None) (auto simp: registry_inv_def)
  with n show ?thesis by (simp add: routePolicy_def)
qed

section \<open>Lemmas about the apply point of an aggregate\<close>

lemma set_uniq: "set (uniq xs) = set xs"
  by (induction xs) auto

lemma distinct_uniq: "distinct (uniq xs)"
  by (induction xs) (auto simp: distinct_removeAll)

lemma uniq_distinct: "length (uniq xs) = length xs \<longleftrightarrow> distinct xs"
proof -
  have "length (uniq xs) = card (set xs)"
    using distinct_card [OF distinct_uniq, of xs] by (simp add: set_uniq)
  then show ?thesis
    by (metis card_distinct distinct_card)
qed

lemma length_intersection: "length (intersection xs ys) = card (set xs \<inter> set ys)"
proof -
  have "length (intersection xs ys) = card (set (intersection xs ys))"
    unfolding intersection_def by (simp add: distinct_card distinct_uniq)
  also have "set (intersection xs ys) = set xs \<inter> set ys"
    unfolding intersection_def by (auto simp: set_uniq)
  finally show ?thesis .
qed

lemma intersection_all:
  "length (intersection xs ys) = length ys \<longleftrightarrow> distinct ys \<and> set ys \<subseteq> set xs"
proof
  assume eq: "length (intersection xs ys) = length ys"
  have le1: "card (set xs \<inter> set ys) \<le> card (set ys)"
    by (simp add: card_mono)
  have le2: "card (set ys) \<le> length ys"
    by (rule card_length)
  from eq le1 le2 have c1: "card (set ys) = length ys"
    and c2: "card (set xs \<inter> set ys) = card (set ys)"
    by (simp_all add: length_intersection)
  from c1 have "distinct ys" by (simp add: card_distinct)
  moreover from c2 have "set xs \<inter> set ys = set ys"
    by (intro card_subset_eq) auto
  ultimately show "distinct ys \<and> set ys \<subseteq> set xs" by auto
next
  assume "distinct ys \<and> set ys \<subseteq> set xs"
  then have "set xs \<inter> set ys = set ys" and "card (set ys) = length ys"
    by (auto simp: distinct_card)
  then show "length (intersection xs ys) = length ys"
    by (simp add: length_intersection)
qed

lemma foldl_first:
  "foldl (\<lambda>acc p. if acc = None \<and> P p then Some p else acc) a ps =
     (case a of Some q \<Rightarrow> Some q | None \<Rightarrow> find P ps)"
  by (induction ps arbitrary: a) (auto split: option.splits)

lemma firstApplyPoint_find:
  "firstApplyPoint d n = find (\<lambda>p. n \<in> set (obj_keys (points d p))) aApplicablePoints"
  by (simp add: firstApplyPoint_def foldl_first)

lemma stage_in_points: "p \<in> set aApplicablePoints"
  by (cases p) (simp_all add: aApplicablePoints_def)

lemma firstApplyPoint_unique:
  assumes "registry_inv d" and "n \<in> set (obj_keys (points d ap))"
  shows "firstApplyPoint d n = Some ap"
proof (cases "firstApplyPoint d n")
  case None
  then have "\<not> (\<exists>p \<in> set aApplicablePoints. n \<in> set (obj_keys (points d p)))"
    by (simp add: firstApplyPoint_find find_None_iff)
  with assms(2) stage_in_points show ?thesis by blast
next
  case (Some q)
  then have "n \<in> set (obj_keys (points d q))"
    by (auto simp: firstApplyPoint_find find_Some_iff)
  with assms have "q = ap"
    unfolding registry_inv_def by blast
  with Some show ?thesis by simp
qed

lemma aggregateApplyPoint_Inr:
  "aggregateApplyPoint d ns = Inr ap \<longleftrightarrow>
     ns \<noteq> [] \<and> distinct ns \<and> set ns \<subseteq> set (names d)
     \<and> firstApplyPoint d (hd ns) = Some ap \<and> set ns \<subseteq> set (obj_keys (points d ap))"
  unfolding aggregateApplyPoint_def intersection_all
  by (cases ns) (auto split: option.splits)

lemma aggregateApplyPoint_permutation:
  assumes "registry_inv d" and "aggregateApplyPoint d xs = Inr ap" and "mset ys = mset xs"
  shows "aggregateApplyPoint d ys = Inr ap"
proof -
  from assms(2) have xs: "xs \<noteq> []" "distinct xs" "set xs \<subseteq> set (names d)"
    "set xs \<subseteq> set (obj_keys (points d ap))"
    by (simp_all add: aggregateApplyPoint_Inr)
  from assms(3) have s: "set ys = set xs" and dist: "distinct ys = distinct xs"
    by (metis set_mset_mset, metis mset_eq_imp_distinct_iff)
  from assms(3) xs(1) have ne: "ys \<noteq> []" by auto
  then have "hd ys \<in> set (obj_keys (points d ap))"
    using s xs(4) by (metis hd_in_set subsetD)
  then have "firstApplyPoint d (hd ys) = Some ap"
    by (rule firstApplyPoint_unique [OF assms(1)])
  with ne s dist xs show ?thesis
    by (simp add: aggregateApplyPoint_Inr)
qed

lemma determineAggregateApplyPoint_agrees:
  assumes "cache_agrees key d cache" and "set ns \<subseteq> set (names d)"
  shows "fst (determineAggregateApplyPoint key d cache ns) = Inr ap
         \<longleftrightarrow> aggregateApplyPoint d ns = Inr ap"
proof (cases "map_of cache (key ns)")
  case None
  then show ?thesis
    by (simp add: determineAggregateApplyPoint_def split: sum.splits)
next
  case (Some q)
  with assms have "aggregateApplyPoint d ns = Inr q"
    by (simp add: cache_agrees_def)
  with Some show ?thesis
    by (simp add: determineAggregateApplyPoint_def)
qed

lemma aggregateApplyPoint_registered:
  assumes "registry_inv d" and "name \<notin> set (names d)"
    and "aggregateApplyPoint d ns = Inr ap"
  shows "aggregateApplyPoint (registered d name policy q) ns = Inr ap"
proof -
  let ?d = "registered d name policy q"
  from assms(3) have ns: "ns \<noteq> []" "distinct ns" "set ns \<subseteq> set (names d)"
    "set ns \<subseteq> set (obj_keys (points d ap))"
    by (simp_all add: aggregateApplyPoint_Inr)
  have inv: "registry_inv ?d"
    using assms(1,2) by (rule registered_inv)
  have k: "set (obj_keys (points d ap)) \<subseteq> set (obj_keys (points ?d ap))"
    by (auto simp: registered_def obj_keys_obj_set)
  have n: "set (names d) \<subseteq> set (names ?d)"
    by (auto simp: registered_def)
  have "hd ns \<in> set (obj_keys (points ?d ap))"
    using ns(1,4) k by (metis hd_in_set subsetD)
  then have "firstApplyPoint ?d (hd ns) = Some ap"
    by (rule firstApplyPoint_unique [OF inv])
  with ns k n show ?thesis
    by (simp add: aggregateApplyPoint_Inr) blast
qed

lemma addPolicy_cache_sound:
  assumes "registry_inv d" and "cache_sound key d cache"
    and "addPolicy opt filename policy (d, sv) = (e, d', sv')"
  shows "cache_sound key d' cache"
proof -
  from addPolicy_cases [OF assms(3)] show ?thesis
  proof (elim disjE exE conjE)
    assume "d' = d"
    with assms(2) show ?thesis by simp
  next
    fix name ap
    assume n: "name \<notin> set (names d)" and d': "d' = registered d name policy ap"
    show ?thesis
      unfolding cache_sound_def d'
    proof (intro allI impI)
      fix k q
      assume "(k, q) \<in> set cache"
      with assms(2) obtain ns where "key ns = k" "aggregateApplyPoint d ns = Inr q"
        by (auto simp: cache_sound_def)
      with aggregateApplyPoint_registered [OF assms(1) n]
      show "\<exists>ns. key ns = k \<and> aggregateApplyPoint (registered d name policy ap) ns = Inr q"
        by blast
    qed
  qed
qed

lemma loadPolicies_cache_sound:
  "registry_inv d \<Longrightarrow> cache_sound key d cache \<Longrightarrow> loadPolicies opt files (d, sv) = (e, d', sv')
   \<Longrightarrow> registry_inv d' \<and> cache_sound key d' cache"
proof (induction files arbitrary: d sv)
  case Nil
  then show ?case by simp
next
  case (Cons a files)
  obtain filename policy where a: "a = (filename, policy)" by (cases a)
  obtain e1 d1 sv1 where r: "addPolicy opt filename policy (d, sv) = (e1, d1, sv1)"
    by (cases "addPolicy opt filename policy (d, sv)") auto
  have i1: "registry_inv d1"
    using addPolicy_inv [OF Cons.prems(1) r] .
  have c1: "cache_sound key d1 cache"
    using addPolicy_cache_sound [OF Cons.prems(1,2) r] .
  show ?case
  proof (cases e1)
    case None
    with Cons.prems(3) a r have "loadPolicies opt files (d1, sv1) = (e, d', sv')" by simp
    from Cons.IH [OF i1 c1 this] show ?thesis .
  next
    case (Some x)
    with Cons.prems(3) a r i1 c1 show ?thesis by auto
  qed
qed

lemma determineAggregateApplyPoint_cache_sound:
  assumes "cache_sound key d cache"
  shows "cache_sound key d (snd (determineAggregateApplyPoint key d cache ns))"
  using assms
  by (auto simp: determineAggregateApplyPoint_def cache_sound_def split: option.splits sum.splits)

lemma functionEntry_cache_sound:
  assumes "cache_sound key d cache"
  shows "cache_sound key d (snd (functionEntry key oApplyPoint dflt d pol agg aTmpList cache))"
proof (cases "agg = None \<and> runs pol \<noteq> None \<and> \<not> truthy (applyPoint pol)")
  case False
  then show ?thesis
    using assms by (auto simp: functionEntry_def Let_def split: option.splits)
next
  case True
  then obtain rs where rs: "agg = None" "runs pol = Some rs" "\<not> truthy (applyPoint pol)"
    by auto
  obtain res c where r: "determineAggregateApplyPoint key d cache rs = (res, c)"
    by (cases "determineAggregateApplyPoint key d cache rs")
  have "cache_sound key d c"
    using determineAggregateApplyPoint_cache_sound [OF assms, of rs] r by simp
  then show ?thesis
    using rs r by (cases res) (auto simp: functionEntry_def Let_def)
qed

lemma routePolicy_cache_sound:
  assumes "cache_sound key d cache"
  shows "cache_sound key d (snd (routePolicy key oApplyPoint dflt d x aTmpList cache))"
proof (cases x)
  case (EArray ns)
  obtain res c where r: "determineAggregateApplyPoint key d cache ns = (res, c)"
    by (cases "determineAggregateApplyPoint key d cache ns")
  have c: "cache_sound key d c"
    using determineAggregateApplyPoint_cache_sound [OF assms, of ns] r by simp
  show ?thesis
  proof (cases res)
    case (Inl a)
    with EArray r c show ?thesis by (simp add: routePolicy_def)
  next
    case (Inr ap)
    with EArray r c functionEntry_cache_sound [OF c] show ?thesis
      by (auto simp: routePolicy_def split: sum.splits)
  qed
next
  case (EFunction pol)
  with functionEntry_cache_sound [OF assms] show ?thesis
    by (simp add: routePolicy_def)
qed (use assms in \<open>auto simp: routePolicy_def split: option.splits\<close>)

lemma reduce_routePolicies_cache_sound:
  "cache_sound key d cache
   \<Longrightarrow> cache_sound key d
         (snd (reduce_routePolicies key oApplyPoint dflt d entries aTmpList cache
                 :: ('f, 'h, 'e) classified \<times> 'k memo))"
proof (induction entries arbitrary: aTmpList cache)
  case Nil
  then show ?case by simp
next
  case (Cons x entries)
  obtain res :: "('f, 'h, 'e) classified" and c
    where r: "routePolicy key oApplyPoint dflt d x aTmpList cache = (res, c)"
    by (cases "routePolicy key oApplyPoint dflt d x aTmpList cache
                 :: ('f, 'h, 'e) classified \<times> 'k memo")
  have c: "cache_sound key d c"
    using routePolicy_cache_sound [OF Cons.prems, of oApplyPoint dflt x aTmpList] r
    by (metis snd_conv)
  show ?case
  proof (cases res)
    case (PoliciesToRun ps)
    with r Cons.IH [OF c] show ?thesis by simp
  qed (use r c in simp_all)
qed

lemma handler_cache_sound:
  fixes d :: "('f, 'h) oData" and invoke :: "(('f, 'h) policy, 'e) invoke"
  assumes "cache_sound key d cache"
  shows "cache_sound key d
           (snd (snd (handler key oApplyPoint dflt invoke d cache aRoutePolicies fReply)))"
proof (cases aRoutePolicies)
  case None
  with assms show ?thesis by (simp add: handler_def)
next
  case (Some entries)
  obtain res :: "('f, 'h, 'e) classified" and c
    where r: "reduce_routePolicies key oApplyPoint dflt d entries [] cache = (res, c)"
    by (cases "reduce_routePolicies key oApplyPoint dflt d entries [] cache
                 :: ('f, 'h, 'e) classified \<times> _")
  have "cache_sound key d c"
    using reduce_routePolicies_cache_sound [OF assms, of oApplyPoint dflt entries "[]"] r
    by (metis snd_conv)
  with Some r show ?thesis
    by (cases res) (simp_all add: handler_def split: prod.splits)
qed

lemma cache_sound_agrees:
  assumes "cache_sound key d cache" and "inj_on key {ns. set ns \<subseteq> set (names d)}"
  shows "cache_agrees key d cache"
  unfolding cache_agrees_def
proof (intro allI impI)
  fix ns ap
  assume ns: "set ns \<subseteq> set (names d)" and hit: "map_of cache (key ns) = Some ap"
  from hit have "(key ns, ap) \<in> set cache"
    by (rule map_of_SomeD)
  with assms(1) obtain ns' where k: "key ns' = key ns" and a: "aggregateApplyPoint d ns' = Inr ap"
    by (auto simp: cache_sound_def)
  from a have "set ns' \<subseteq> set (names d)"
    by (simp add: aggregateApplyPoint_Inr)
  with assms(2) ns k have "ns' = ns"
    by (auto dest: inj_onD)
  with a show "aggregateApplyPoint d ns = Inr ap" by simp
qed

lemma operate_inv:
  assumes "registry_inv d" and "cache_sound key d cache"
    and "operate key x (d, cache, sv) = (d', cache', sv')"
  shows "registry_inv d' \<and> cache_sound key d' cache'"
proof (cases x)
  case (LoadPolicies opt files)
  obtain e d1 sv1 where l: "loadPolicies opt files (d, sv) = (e, d1, sv1)"
    by (cases "loadPolicies opt files (d, sv)") auto
  with assms(3) LoadPolicies have "d' = d1" "cache' = cache" by simp_all
  with loadPolicies_cache_sound [OF assms(1,2) l] show ?thesis by simp
next
  case Reset
  with assms(3) have "d' = empty_oData" "cache' = []"
    by (simp_all add: reset_def)
  then show ?thesis
    by (simp add: registry_inv_empty cache_sound_def)
next
  case (Resolve ns)
  with assms(3) have "d' = d" "cache' = snd (determineAggregateApplyPoint key d cache ns)"
    by auto
  with assms(1) determineAggregateApplyPoint_cache_sound [OF assms(2)] show ?thesis by simp
next
  case (Dispatch oApplyPoint dflt invoke aRoutePolicies fReply)
  with assms(3) have "d' = d"
    "cache' = snd (snd (handler key oApplyPoint dflt invoke d cache aRoutePolicies fReply))"
    by auto
  with assms(1) handler_cache_sound [OF assms(2)] show ?thesis by simp
qed

lemma history_inv:
  "registry_inv d \<Longrightarrow> cache_sound key d cache \<Longrightarrow> history key xs (d, cache, sv) = (d', cache', sv')
   \<Longrightarrow> registry_inv d' \<and> cache_sound key d' cache'"
proof (induction xs arbitrary: d cache sv)
  case Nil
  then show ?case by simp
next
  case (Cons x xs)
  obtain d1 c1 sv1 where o: "operate key x (d, cache, sv) = (d1, c1, sv1)"
    by (cases "operate key x (d, cache, sv)") auto
  from operate_inv [OF Cons.prems(1,2) o] have "registry_inv d1" "cache_sound key d1 c1"
    by simp_all
  moreover from Cons.prems(3) o have "history key xs (d1, c1, sv1) = (d', cache', sv')"
    by simp
  ultimately show ?case by (rule Cons.IH)
qed

text \<open>
  The joined names tell lists apart when no name is empty or has a comma.
\<close>

lemma split_at_comma:
  assumes "CHR '','' \<notin> set u" and "CHR '','' \<notin> set v"
    and "u @ CHR '','' # a = v @ CHR '','' # b"
  shows "u = v \<and> a = b"
proof -
  have "takeWhile (\<lambda>c. c \<noteq> CHR '','') (u @ CHR '','' # a) = u"
    using assms(1) by (auto simp: takeWhile_tail)
  moreover have "takeWhile (\<lambda>c. c \<noteq> CHR '','') (v @ CHR '','' # b) = v"
    using assms(2) by (auto simp: takeWhile_tail)
  ultimately have "u = v"
    using assms(3) by simp
  with assms(3) show ?thesis by simp
qed

lemma join_names_eq:
  assumes "\<forall>n \<in> set xs \<union> set ys. n \<noteq> [] \<and> CHR '','' \<notin> set n"
    and "join_names xs = join_names ys"
  shows "xs = ys"
  using assms
proof (induction xs arbitrary: ys rule: join_names.induct)
  case 1
  then show ?case
    by (cases ys rule: join_names.cases) auto
next
  case (2 x)
  show ?case
  proof (cases ys rule: join_names.cases)
    case 1
    with 2 show ?thesis by auto
  next
    case (2 y)
    with "2.prems" show ?thesis by auto
  next
    case (3 y z zs)
    with "2.prems" have "CHR '','' \<in> set x" by auto
    with "2.prems" show ?thesis by auto
  qed
next
  case (3 x x' xs')
  show ?case
  proof (cases ys rule: join_names.cases)
    case 1
    with "3.prems" show ?thesis by auto
  next
    case (2 y)
    with "3.prems" have "CHR '','' \<in> set y" by auto
    with "3.prems" 2 show ?thesis by auto
  next
    case (3 y z zs)
    with "3.prems" have e: "x @ CHR '','' # join_names (x' # xs') = y @ CHR '','' # join_names (z # zs)"
      by simp
    have "CHR '','' \<notin> set x" "CHR '','' \<notin> set y"
      using "3.prems"(1) 3 by auto
    from split_at_comma [OF this e] have xy: "x = y"
      and j: "join_names (x' # xs') = join_names (z # zs)" by simp_all
    have "\<forall>n\<in>set (x' # xs') \<union> set (z # zs). n \<noteq> [] \<and> CHR '','' \<notin> set n"
      using "3.prems"(1) 3 by auto
    from "3.IH" [OF this j] xy 3 show ?thesis by simp
  qed
qed

lemma join_names_inj_on:
  assumes "\<forall>n \<in> set (names d). n \<noteq> [] \<and> CHR '','' \<notin> set n"
  shows "inj_on join_names {ns. set ns \<subseteq> set (names d)}"
proof (rule inj_onI)
  fix xs ys
  assume "xs \<in> {ns. set ns \<subseteq> set (names d)}" "ys \<in> {ns. set ns \<subseteq> set (names d)}"
    and "join_names xs = join_names ys"
  with assms show "xs = ys"
    by (intro join_names_eq) auto
qed

section \<open>Lemmas about the default error handler\<close>

lemma defaultErrorHandler_all_continue:
  assumes "\<forall>n \<in> set ranPolicies. \<exists>r. obj_get results n = Some r \<and> err r = None \<and> canContinue r"
  shows "defaultErrorHandler ranPolicies results =
           ([\<lparr>err = None, canContinue = True, message = None\<rparr>], None)"
proof -
  have "forEach_ranPolicies ranPolicies results = ([], None)"
    using assms by (induction ranPolicies) auto
  then show ?thesis by (simp add: defaultErrorHandler_def)
qed

lemma defaultErrorHandler_failure:
  assumes "\<forall>n \<in> set pre. \<exists>r. obj_get results n = Some r \<and> err r = None \<and> canContinue r"
    and "obj_get results n = Some r" and "err r \<noteq> None \<or> \<not> canContinue r"
  shows "defaultErrorHandler (pre @ n # post) results =
           ([\<lparr>err = err r, canContinue = canContinue r, message = message r\<rparr>,
             \<lparr>err = None, canContinue = True, message = None\<rparr>], None)"
proof -
  have "forEach_ranPolicies (pre @ n # post) results =
          ([\<lparr>err = err r, canContinue = canContinue r, message = message r\<rparr>], None)"
    using assms by (induction pre) auto
  then show ?thesis by (simp add: defaultErrorHandler_def)
qed

section \<open>Lemmas about the serial run\<close>

text \<open>
  Policies that call back once: when those before \<open>p\<close> continue and \<open>p\<close> refuses, the run
  calls the policies up to \<open>p\<close> and none after it, and replies once, with
  \<open>oBoom.forbidden\<close> of the message of \<open>p\<close>.
\<close>

lemma serial_refusal:
  assumes "\<forall>q \<in> set pre. \<exists>c. invoke q = [CallsBack c] \<and> err c = None \<and> canContinue c"
    and "invoke p = [CallsBack c]" and "err c = None" and "\<not> canContinue c"
    and "\<not> replied r"
  shows "serial (checkPolicy invoke) runPolicies_callback (pre @ p # post) [Next None] (r, called) =
           (None, respond r (Reply (Forbidden (message c))), called @ pre @ [p])"
  using assms(1)
proof (induction pre arbitrary: called)
  case Nil
  have "checkPolicy invoke p = [Next (Some (Forbidden (message c)))]"
    using assms(2-4) by (simp add: checkPolicy_def)
  then show ?case
    using assms(5) by (simp add: runPolicies_callback_def)
next
  case (Cons q pre)
  from Cons.prems obtain c' where "invoke q = [CallsBack c']" "err c' = None" "canContinue c'"
    by auto
  then have "checkPolicy invoke q = [Next None]"
    by (simp add: checkPolicy_def)
  moreover have "\<forall>q \<in> set pre. \<exists>c. invoke q = [CallsBack c] \<and> err c = None \<and> canContinue c"
    using Cons.prems by simp
  ultimately show ?case
    using Cons.IH [of "called @ [q]"] by simp
qed

lemma runPolicies_refusal:
  assumes "\<forall>q \<in> set pre. \<exists>c. invoke q = [CallsBack c] \<and> err c = None \<and> canContinue c"
    and "invoke p = [CallsBack c]" and "err c = None" and "\<not> canContinue c"
    and "\<not> replied r"
  shows "runPolicies invoke (pre @ p # post) r =
           (None, respond r (Reply (Forbidden (message c))), pre @ [p])"
proof -
  have "runPolicies invoke (pre @ p # post) r =
          serial (checkPolicy invoke) runPolicies_callback (pre @ p # post) [Next None] (r, [])"
    by (cases pre) (simp_all add: runPolicies_def)
  then show ?thesis
    using serial_refusal [OF assms, of post "[]"] by simp
qed

section \<open>Registration: duplicates\<close>

text \<open>
  C5: a registration attempt whose name is already in the registry fails with the
  duplicate-policy error, and the registry (names, policies per apply point, policy table
  and connected handlers) after the attempt is the registry before it. The attempt only
  writes an error entry to the server log, and \<open>loadPolicies\<close> passes the error on without
  looking at the remaining files.
\<close>

theorem addPolicy_duplicate:
  assumes "match_js filename = Some name" and "name \<in> set (names d)"
  shows "addPolicy opt filename policy (d, sv) =
           (Some (DuplicatePolicy name), d,
            sv\<lparr>logs := logs sv @ [LogError (DuplicatePolicy name)]\<rparr>)
       \<and> loadPolicies opt ((filename, policy) # files) (d, sv) =
           (Some (DuplicatePolicy name), d,
            sv\<lparr>logs := logs sv @ [LogError (DuplicatePolicy name)]\<rparr>)"
  using assms by (simp add: addPolicy_def)

theorem addPolicy_duplicate_witness:
  "addPolicy None ''isAdmin.js'' isOwner (example_oData, example_server) =
     (Some (DuplicatePolicy ''isAdmin''), example_oData,
      example_server\<lparr>logs := logs example_server @ [LogError (DuplicatePolicy ''isAdmin'')]\<rparr>)
   \<and> loadPolicies None [(''isAdmin.js'', isOwner), (''isGuest.js'', isOwner)]
         (example_oData, example_server) =
     (Some (DuplicatePolicy ''isAdmin''), example_oData,
      example_server\<lparr>logs := logs example_server @ [LogError (DuplicatePolicy ''isAdmin'')]\<rparr>)"
proof -
  have n: "''isAdmin'' \<in> set (names example_oData)"
    by (simp add: example_oData_def)
  show ?thesis
    using addPolicy_duplicate [OF match_js_examples(1) n] .
qed

section \<open>Registration: a falsy apply point\<close>



section \<open>Registration: connecting the handlers\<close>

text \<open>
  C8: in a registry lifetime without \<open>reset\<close> (any sequence of \<open>loadPolicies\<close> calls from
  the empty registry), \<open>server.ext\<close> has been called exactly once for each apply point
  that has a policy and never for another one; and a further registration calls it
  exactly for the apply point whose object it makes non-empty, so a registration into an
  apply point that already has a policy does not connect the handler again.
\<close>

theorem handler_connected_once:
  assumes "lifetime calls (empty_oData, sv0) = (d, sv)"
  shows "(\<exists>new. exts sv = exts sv0 @ new \<and> distinct new \<and> set new = {p. points d p \<noteq> []})
       \<and> (\<forall>opt filename policy e d' sv'.
             addPolicy opt filename policy (d, sv) = (e, d', sv') \<longrightarrow>
             exts sv' = exts sv @ filter (\<lambda>p. points d p = [] \<and> points d' p \<noteq> [])
                                         aApplicablePoints)"
proof -
  have c: "connected_once sv0 (d, sv)"
    using lifetime_connected_once [OF connected_once_empty, of sv0 calls] assms by simp
  then have inv: "registry_inv d"
    by (simp add: connected_once_def)
  from inv have "setHandlers d = {p. points d p \<noteq> []}"
    by (simp add: registry_inv_def)
  with c have "\<exists>new. exts sv = exts sv0 @ new \<and> distinct new \<and> set new = {p. points d p \<noteq> []}"
    by (auto simp: connected_once_def)
  moreover have "\<forall>opt filename policy e d' sv'.
             addPolicy opt filename policy (d, sv) = (e, d', sv') \<longrightarrow>
             exts sv' = exts sv @ filter (\<lambda>p. points d p = [] \<and> points d' p \<noteq> [])
                                         aApplicablePoints"
    using addPolicy_connects [OF inv] by blast
  ultimately show ?thesis by blast
qed

theorem handler_connected_once_witness:
  "exts example_server = exts new_server @ [onPreHandler, onPreAuth]
   \<and> (\<exists>new. exts example_server = exts new_server @ new \<and> distinct new
          \<and> set new = {p. points example_oData p \<noteq> []})
   \<and> exts (snd (snd (addPolicy None ''isGuest.js'' isOwner (example_oData, example_server))))
       = [onPreHandler, onPreAuth]
   \<and> exts (snd (snd (addPolicy None ''isGuest.js'' (isOwner\<lparr>applyPoint := JStr ''onRequest''\<rparr>)
                          (example_oData, example_server))))
       = [onPreHandler, onPreAuth, onRequest]"
proof -
  note h = handler_connected_once [OF example_lifetime]
  have e: "exts example_server = exts new_server @ [onPreHandler, onPreAuth]"
    by (simp add: example_server_def new_server_def)
  have s: "js_stage (JStr ''onRequest'') = Some onRequest"
    by (simp add: js_stage_def aApplicablePoints_def)
  have g: "''isGuest'' \<notin> set (names example_oData)"
    by (simp add: example_oData_def)
  have a1: "addPolicy None ''isGuest.js'' isOwner (example_oData, example_server) =
          (None, registered example_oData ''isGuest'' isOwner onPreHandler,
           snd (snd (addPolicy None ''isGuest.js'' isOwner (example_oData, example_server))))"
    using g by (simp add: addPolicy_def match_js_examples js_stage_examples isOwner_def
        hasValidApplyPoint_def registered_def example_oData_def insert_absorb)
  have a2: "addPolicy None ''isGuest.js'' (isOwner\<lparr>applyPoint := JStr ''onRequest''\<rparr>)
            (example_oData, example_server) =
          (None, registered example_oData ''isGuest'' (isOwner\<lparr>applyPoint := JStr ''onRequest''\<rparr>)
                   onRequest,
           snd (snd (addPolicy None ''isGuest.js'' (isOwner\<lparr>applyPoint := JStr ''onRequest''\<rparr>)
                       (example_oData, example_server))))"
    using g by (simp add: addPolicy_def match_js_examples s isOwner_def
        hasValidApplyPoint_def registered_def example_oData_def)
  from h a1 have
    "exts (snd (snd (addPolicy None ''isGuest.js'' isOwner (example_oData, example_server)))) =
       exts example_server @
         filter (\<lambda>p. points example_oData p = [] \<and>
                      points (registered example_oData ''isGuest'' isOwner onPreHandler) p \<noteq> [])
                aApplicablePoints"
    by blast
  then have b1:
    "exts (snd (snd (addPolicy None ''isGuest.js'' isOwner (example_oData, example_server))))
       = [onPreHandler, onPreAuth]"
    by (simp add: example_server_def example_oData_def registered_def aApplicablePoints_def)
  from h a2 have
    "exts (snd (snd (addPolicy None ''isGuest.js'' (isOwner\<lparr>applyPoint := JStr ''onRequest''\<rparr>)
                       (example_oData, example_server)))) =
       exts example_server @
         filter (\<lambda>p. points example_oData p = [] \<and>
                      points (registered example_oData ''isGuest''
                                (isOwner\<lparr>applyPoint := JStr ''onRequest''\<rparr>) onRequest) p \<noteq> [])
                aApplicablePoints"
    by blast
  then have b2:
    "exts (snd (snd (addPolicy None ''isGuest.js'' (isOwner\<lparr>applyPoint := JStr ''onRequest''\<rparr>)
                       (example_oData, example_server))))
       = [onPreHandler, onPreAuth, onRequest]"
    by (simp add: example_server_def example_oData_def registered_def aApplicablePoints_def)
  from h e b1 b2 show ?thesis by blast
qed

section \<open>\<open>reset\<close>\<close>

text \<open>
  C7: after \<open>reset\<close> the names, the policy table, the set of connected handlers, every
  apply point's object and the memoization cache are empty, whatever the state before.
  So files that register without error into an empty registry register again without
  error after \<open>reset\<close> and give the same registry (no duplicate-policy error), and the
  resolver called with the cleared cache returns what \<open>aggregateApplyPoint\<close> computes
  from the registry it is given, caching only that.
\<close>

theorem reset_clears:
  assumes "loadPolicies opt files (empty_oData, sv0) = (None, d, sv)"
  shows "names (fst (reset s)) = [] \<and> rawPolicies (fst (reset s)) = []
       \<and> setHandlers (fst (reset s)) = {} \<and> (\<forall>p. points (fst (reset s)) p = [])
       \<and> snd (reset s) = []
       \<and> (\<exists>sv''. loadPolicies opt files (fst (reset s), sv') = (None, d, sv''))
       \<and> determineAggregateApplyPoint key d (snd (reset s)) ns =
           (case aggregateApplyPoint d ns of
              Inl a \<Rightarrow> (Inl a, [])
            | Inr ap \<Rightarrow> (Inr ap, [(key ns, ap)]))"
proof -
  have r: "reset s = (empty_oData, [])"
    by (simp add: reset_def)
  have "\<exists>sv''. loadPolicies opt files (empty_oData, sv') = (None, d, sv'')"
    using loadPolicies_server_independent [OF assms] .
  moreover have "determineAggregateApplyPoint key d [] ns =
           (case aggregateApplyPoint d ns of
              Inl a \<Rightarrow> (Inl a, [])
            | Inr ap \<Rightarrow> (Inr ap, [(key ns, ap)]))"
    by (simp add: determineAggregateApplyPoint_def split: sum.splits)
  ultimately show ?thesis
    unfolding r by (simp add: empty_oData_def)
qed

theorem reset_clears_witness:
  "names (fst (reset (example_oData, [(''isAdmin'', onPreAuth)]))) = []
   \<and> rawPolicies (fst (reset (example_oData, [(''isAdmin'', onPreAuth)]))) = []
   \<and> setHandlers (fst (reset (example_oData, [(''isAdmin'', onPreAuth)]))) = {}
   \<and> (\<forall>p. points (fst (reset (example_oData, [(''isAdmin'', onPreAuth)]))) p = [])
   \<and> snd (reset (example_oData, [(''isAdmin'', onPreAuth)])) = []
   \<and> (\<exists>sv''. loadPolicies None example_files
                (fst (reset (example_oData, [(''isAdmin'', onPreAuth)])), example_server) =
              (None, example_oData, sv''))
   \<and> determineAggregateApplyPoint join_names example_oData
         (snd (reset (example_oData, [(''isAdmin'', onPreAuth)]))) [''isAdmin''] =
       (Inr onPreHandler, [(''isAdmin'', onPreHandler)])"
proof -
  have a: "aggregateApplyPoint example_oData [''isAdmin''] = Inr onPreHandler"
    by (simp add: aggregateApplyPoint_def intersection_def firstApplyPoint_def
        aApplicablePoints_def obj_keys_def example_oData_def)
  show ?thesis
    using reset_clears [OF example_loadPolicies,
        of "(example_oData, [(''isAdmin'', onPreAuth)])" example_server join_names "[''isAdmin'']"]
    by (simp add: a reset_def)
qed

section \<open>The apply point of an aggregate does not depend on the order\<close>

text \<open>
  C4: after any history of the module from its initial state (registrations, resets,
  requests handled, calls of the resolver), when the resolver returns an apply point for
  a list of registered names, it returns the same apply point for every permutation of
  the list. The key of the cache tells the lists of registered names apart: the array
  itself does (\<open>\<lambda>ns. ns\<close>), and so do the joined names of the comment when no registered
  name has a comma (\<open>join_names_inj_on\<close>).
\<close>

theorem resolver_order_insensitive:
  assumes "history key xs (empty_oData, [], sv0) = (d, cache, sv)"
    and "inj_on key {ns. set ns \<subseteq> set (names d)}"
    and "set aPolicyNames \<subseteq> set (names d)"
    and "fst (determineAggregateApplyPoint key d cache aPolicyNames) = Inr ap"
    and "mset permuted = mset aPolicyNames"
  shows "fst (determineAggregateApplyPoint key d cache permuted) = Inr ap"
proof -
  have "cache_sound key empty_oData []"
    by (simp add: cache_sound_def)
  from history_inv [OF registry_inv_empty this assms(1)]
  have inv: "registry_inv d" and sound: "cache_sound key d cache"
    by simp_all
  have agr: "cache_agrees key d cache"
    using cache_sound_agrees [OF sound assms(2)] .
  have "aggregateApplyPoint d aPolicyNames = Inr ap"
    using determineAggregateApplyPoint_agrees [OF agr assms(3), of ap] assms(4) by simp
  then have "aggregateApplyPoint d permuted = Inr ap"
    using aggregateApplyPoint_permutation [OF inv _ assms(5)] by simp
  moreover have "set permuted \<subseteq> set (names d)"
    using assms(3,5) by (metis set_mset_mset)
  ultimately show ?thesis
    using determineAggregateApplyPoint_agrees [OF agr, of permuted ap] by simp
qed

theorem resolver_order_insensitive_witness:
  "fst (determineAggregateApplyPoint (\<lambda>ns. ns) example_oData
          [([''isAdmin'', ''isOwner''], onPreHandler)] [''isAdmin'', ''isOwner''])
     = Inr onPreHandler
   \<and> fst (determineAggregateApplyPoint (\<lambda>ns. ns) example_oData
          [([''isAdmin'', ''isOwner''], onPreHandler)] [''isOwner'', ''isAdmin''])
     = Inr onPreHandler"
proof -
  have i: "inj_on (\<lambda>ns. ns) {ns. set ns \<subseteq> set (names example_oData)}"
    by simp
  have n: "set [''isAdmin'', ''isOwner''] \<subseteq> set (names example_oData)"
    by (simp add: example_oData_def)
  have x: "fst (determineAggregateApplyPoint (\<lambda>ns. ns) example_oData
                  [([''isAdmin'', ''isOwner''], onPreHandler)] [''isAdmin'', ''isOwner''])
             = Inr onPreHandler"
    by (simp add: determineAggregateApplyPoint_def)
  have m: "mset [''isOwner'', ''isAdmin''] = mset [''isAdmin'', ''isOwner'']"
    by simp
  show ?thesis
    using x resolver_order_insensitive [OF example_history i n x m] by simp
qed

section \<open>The assertions of \<open>exports.parallel\<close>\<close>

text \<open>
  C9, as the code has it: a call of \<open>parallel\<close> without any argument fails with the
  first assertion, and a call whose names contain a duplicate fails with the uniqueness
  assertion, with or without a final error handler (which is not among the names). A
  call whose only argument is an error handler has one argument and zero names: it
  passes both assertions and returns an aggregate of no policies.
\<close>

theorem parallel_assertions:
  "(parallel [] None :: assertion + ('f, 'h) policy) = Inl RequiresArgument
   \<and> (\<not> distinct policyNames \<longrightarrow>
        (parallel policyNames errorHandler :: assertion + ('f, 'h) policy) = Inl RequiresUnique)
   \<and> (parallel [] (Some h) :: assertion + ('f, 'h) policy) =
        Inr \<lparr>applyPoint = JUndefined, runs = Some [], body = Aggregate [] (Some h)\<rparr>"
proof -
  have "\<not> distinct policyNames \<Longrightarrow> policyNames \<noteq> []"
    by auto
  then show ?thesis
    unfolding parallel_def uniq_distinct by simp
qed

theorem parallel_assertions_witness:
  "(parallel [] None :: assertion + (unit, unit) policy) = Inl RequiresArgument
   \<and> (parallel [''isAdmin'', ''isOwner'', ''isAdmin''] (Some ()) :: assertion + (unit, unit) policy)
       = Inl RequiresUnique
   \<and> (parallel [] (Some ()) :: assertion + (unit, unit) policy) =
        Inr \<lparr>applyPoint = JUndefined, runs = Some [], body = Aggregate [] (Some ())\<rparr>"
  using parallel_assertions [of "[''isAdmin'', ''isOwner'', ''isAdmin'']" "Some ()" "()"]
  by simp

text \<open>
  C9, as stated (a call with zero names fails also when the final argument is an error
  handler), does not hold: \<open>parallel(handler)\<close> returns an aggregate.
\<close>

theorem parallel_handler_only:
  "(parallel [] (Some ()) :: assertion + (unit, unit) policy) =
     Inr \<lparr>applyPoint = JUndefined, runs = Some [], body = Aggregate [] (Some ())\<rparr>"
  by (simp add: parallel_def)

section \<open>The default error handler calls \<open>next\<close> twice\<close>

text \<open>
  C2: given the names in priority order and a result per sub-policy of which at least
  one is an error or a refusal, the handler should call \<open>next\<close> exactly once, with the
  result of the earliest-listed failing sub-policy. For \<open>A\<close> and \<open>C\<close> refusing and \<open>B\<close>
  continuing, the first call of \<open>next\<close> is \<open>A\<close>'s refusal, but \<open>return false\<close> only leaves
  the \<open>_.forEach\<close>, and \<open>next(null, true)\<close> is called as well.
\<close>

theorem defaultErrorHandler_calls_twice:
  "defaultErrorHandler [''A'', ''B'', ''C'']
     [(''A'', \<lparr>err = None, canContinue = False, message = Some ''no A''\<rparr>),
      (''B'', \<lparr>err = None, canContinue = True, message = None\<rparr>),
      (''C'', \<lparr>err = (None :: unit option), canContinue = False, message = Some ''no C''\<rparr>)]
   = ([\<lparr>err = None, canContinue = False, message = Some ''no A''\<rparr>,
       \<lparr>err = None, canContinue = True, message = None\<rparr>], None)"
  by (simp add: defaultErrorHandler_def obj_get_def)

section \<open>A rejecting aggregate does not end the serial run\<close>

text \<open>
  C6: when a policy of the list refuses and no response has been given yet, the policies
  listed after it should never be called, and the run should give exactly one response,
  the denial with that policy's message. For policies that call back once this is what
  \<open>runPolicies\<close> does (\<open>runPolicies_refusal\<close>). An aggregate of \<open>exports.parallel\<close> with the
  default error handler calls back twice when a sub-policy refuses (C2), and \<open>runPolicies\<close>
  takes the second call as the aggregate continuing. For the route
  \<open>[['isAdmin'], isOwner]\<close>, where \<open>isAdmin\<close> refuses, the \<open>onPreHandler\<close> handler runs the
  aggregate of \<open>isAdmin\<close> and then \<open>isOwner\<close>: it replies with the denial of \<open>isAdmin\<close>, and
  \<open>isOwner\<close> is called all the same.
\<close>

theorem runPolicies_calls_after_refusal:
  "(parallel [''isAdmin''] None :: assertion + (unit, unit) policy) = Inr isAdmin_parallel
   \<and> example_invoke isAdmin_parallel =
       [CallsBack \<lparr>err = None, canContinue = False, message = Some ''denied''\<rparr>,
        CallsBack \<lparr>err = None, canContinue = True, message = None\<rparr>]
   \<and> runPolicies example_invoke [isAdmin_parallel, isOwner] new_reply =
       (None, \<lparr>replied = True, responses = [Reply (Forbidden (Some ''denied''))]\<rparr>,
        [isAdmin_parallel, isOwner])
   \<and> handler (\<lambda>ns. ns) onPreHandler onPreHandler example_invoke example_oData []
         (Some [EArray [''isAdmin''], EFunction isOwner]) new_reply =
       (None, (\<lparr>replied = True, responses = [Reply (Forbidden (Some ''denied''))]\<rparr>,
               [isAdmin_parallel, isOwner]),
        [([''isAdmin''], onPreHandler)])"
proof -
  have p: "(parallel [''isAdmin''] None :: assertion + (unit, unit) policy) = Inr isAdmin_parallel"
    by (simp add: parallel_def isAdmin_parallel_def)
  have a: "example_invoke isAdmin_parallel =
       [CallsBack \<lparr>err = None, canContinue = False, message = Some ''denied''\<rparr>,
        CallsBack \<lparr>err = None, canContinue = True, message = None\<rparr>]"
    by (simp add: example_invoke_def isAdmin_parallel_def aggregatePolicy_def callErrorHandler_def
        defaultErrorHandler_def example_function_def example_oData_def obj_get_def)
  have o: "example_invoke isOwner =
       [CallsBack \<lparr>err = None, canContinue = True, message = None\<rparr>]"
    by (simp add: example_invoke_def example_function_def isOwner_def isAdmin_def)
  have r: "runPolicies example_invoke [isAdmin_parallel, isOwner] new_reply =
       (None, \<lparr>replied = True, responses = [Reply (Forbidden (Some ''denied''))]\<rparr>,
        [isAdmin_parallel, isOwner])"
    by (simp add: runPolicies_def checkPolicy_def a o runPolicies_callback_def respond_def
        new_reply_def)
  have g: "aggregateApplyPoint example_oData [''isAdmin''] = Inr onPreHandler"
    by (simp add: aggregateApplyPoint_def intersection_def firstApplyPoint_def
        aApplicablePoints_def obj_keys_def example_oData_def)
  have v: "hasValidApplyPoint isAdmin_parallel" "hasValidApplyPoint isOwner"
    "js_stage (applyPoint isAdmin_parallel) = None"
    "js_stage (applyPoint isOwner) = Some onPreHandler"
    "runs isOwner = None"
    by (simp_all add: hasValidApplyPoint_def isAdmin_parallel_def isOwner_def js_stage_examples)
  have h: "handler (\<lambda>ns. ns) onPreHandler onPreHandler example_invoke example_oData []
         (Some [EArray [''isAdmin''], EFunction isOwner]) new_reply =
       (None, (\<lparr>replied = True, responses = [Reply (Forbidden (Some ''denied''))]\<rparr>,
               [isAdmin_parallel, isOwner]),
        [([''isAdmin''], onPreHandler)])"
    by (simp add: handler_def routePolicy_def functionEntry_def determineAggregateApplyPoint_def
        g p v r)
  from p a r h show ?thesis by simp
qed

section \<open>String entries of a route's policies\<close>

text \<open>
  C1: a string entry that is not the name of a registered policy should end the dispatch
  with the missing-policy error (status 501) and never be skipped. The handler tests
  \<open>_.includes(oData.names, xRoutePolicy)\<close> without the negation that its comment (look
  for missing policies) and its message call for. In the example registry the entry
  \<open>isAdmn\<close> names no policy: the \<open>onPreHandler\<close> handler skips it, runs nothing and
  replies \<open>continue\<close>.
\<close>

theorem handler_skips_unregistered_name:
  "handler join_names onPreHandler onPreHandler always_continue example_oData []
     (Some [EString ''isAdmn'']) new_reply =
   (None, (\<lparr>replied = True, responses = [Continue]\<rparr>, []), [])"
  by (simp add: handler_def routePolicy_def runPolicies_def runPolicies_callback_def
      example_oData_def obj_get_def respond_def new_reply_def)

text \<open>
  C3: a string entry naming a registered policy of another apply point should be skipped
  without error, and one naming a policy of this handler's apply point should be added
  to the policies to run. By the same test as in C1, the \<open>onPreHandler\<close> handler answers
  either entry with the missing-policy error and calls no policy: \<open>isLoggedIn\<close> (of
  \<open>onPreAuth\<close>) is not skipped and \<open>isAdmin\<close> (of \<open>onPreHandler\<close>) is not run.
\<close>

theorem handler_rejects_registered_name:
  "handler join_names onPreHandler onPreHandler always_continue example_oData []
     (Some [EString ''isLoggedIn'']) new_reply =
   (None, (\<lparr>replied = True, responses = [Reply (MissingPolicy ''isLoggedIn'')]\<rparr>, []), [])
   \<and> handler join_names onPreHandler onPreHandler always_continue example_oData []
     (Some [EString ''isAdmin'']) new_reply =
   (None, (\<lparr>replied = True, responses = [Reply (MissingPolicy ''isAdmin'')]\<rparr>, []), [])
   \<and> statusCode (MissingPolicy ''isAdmin'' :: unit boom) = Some 501"
  by (simp add: handler_def routePolicy_def runPolicies_def runPolicies_callback_def
      example_oData_def obj_get_def respond_def new_reply_def)

end
